theory Spec2Isabelle
  imports Main "HOL-Library.Word"
begin

unbundle bit_operations_syntax

section \<open>Blobs: leaves and compound blobs\<close>

type_synonym byte = "8 word"
type_synonym uint64 = "64 word"
type_synonym int64 = "64 word"

text \<open>
  A \<open>compoundBlob\<close> holds two parallel sequences, \<open>offsets\<close> and \<open>futures\<close>
  (the embedded \<open>compoundObject\<close>). A future is modelled by the blob it dereferences to:
  \<open>f.Deref(b.cs).(Blob)\<close> is either a \<open>blobLeaf\<close> or a \<open>compoundBlob\<close>, the two
  cases of the type switch in \<open>getLeaves\<close>. The fields \<open>ref\<close> and \<open>cs\<close> play no part
  in reading.
\<close>

datatype Blob = blobLeaf (data: "byte list") | compound compoundBlob
and compoundBlob = compoundBlob (offsets: "uint64 list") (futures: "Blob list")

text \<open>
  \<open>getLeaves\<close> sends every leaf reachable from a compound blob to the output channel
  and then closes it. Each child gets a channel of its own, the channels are queued in
  child order on \<open>in\<close>, and the consumer loop drains them one after the other; the
  sequence of values that passes through \<open>out\<close> is therefore the one computed here.
  \<open>deref_leaves\<close> is the body of the inner goroutine: what one child writes to its
  channel \<open>ch\<close> before the channel is closed.
\<close>

fun getLeaves :: "compoundBlob \<Rightarrow> byte list list"
and deref_leaves :: "Blob \<Rightarrow> byte list list" where
  "getLeaves (compoundBlob os fs) = concat (map deref_leaves fs)"
| "deref_leaves (blobLeaf d) = [d]"
| "deref_leaves (compound c) = getLeaves c"

section \<open>The reader of a leaf\<close>

datatype io_error = EOF

text \<open>
  Modelled from the spec: \<open>blobLeaf.Reader()\<close> is not among the sources. A leaf yields a byte
  reader over its payload (``Leaf "hello": Reader yields "hello" then EOF''); this is Go's
  \<open>bytes.Reader\<close>: a read at the end returns \<open>(0, EOF)\<close>, any other read copies
  \<open>min (len p) (len s - i)\<close> bytes, advances \<open>i\<close> and returns no error
  (\<open>r_s\<close> and \<open>r_i\<close> are its fields \<open>s\<close> and \<open>i\<close>).
  The first component of the result is the bytes copied into \<open>p\<close>, so \<open>n\<close> is its length.
\<close>

record bytes_Reader =
  r_s :: "byte list"
  r_i :: nat

definition blobLeaf_Reader :: "byte list \<Rightarrow> bytes_Reader" where
  "blobLeaf_Reader d = \<lparr>r_s = d, r_i = 0\<rparr>"

definition bytes_Reader_Read :: "bytes_Reader \<Rightarrow> nat \<Rightarrow> (byte list \<times> io_error option) \<times> bytes_Reader" where
  "bytes_Reader_Read r m =
     (if r_i r \<ge> length (r_s r) then (([], Some EOF), r)
      else (let bs = take m (drop (r_i r) (r_s r))
            in ((bs, None), r\<lparr>r_i := r_i r + length bs\<rparr>)))"

section \<open>compoundBlobReader\<close>

text \<open>
  \<open>leaves\<close> is the channel fed by \<open>getLeaves\<close>: \<open>None\<close> is the nil channel,
  \<open>Some ls\<close> a channel that will still deliver \<open>ls\<close> and is then closed.
  The fields \<open>currentReader\<close>, \<open>currentBlobIndex\<close> and \<open>offset\<close> are touched by
  \<open>updateReader\<close> only and are left out.
\<close>

record compoundBlobReader =
  leaves :: "byte list list option"
  curLeaf :: "bytes_Reader option"
  eof :: bool
  cb :: compoundBlob

definition Reader :: "compoundBlob \<Rightarrow> compoundBlobReader" where
  "Reader c = \<lparr>leaves = None, curLeaf = None, eof = False, cb = c\<rparr>"

text \<open>\<open>Seek\<close> ignores both arguments, restarts the traversal and returns \<open>(0, nil)\<close>.\<close>

definition Seek :: "compoundBlobReader \<Rightarrow> int \<Rightarrow> int \<Rightarrow> (int \<times> io_error option) \<times> compoundBlobReader" where
  "Seek cbr offset whence =
     ((0, None), cbr\<lparr>curLeaf := None, leaves := Some (getLeaves (cb cbr))\<rparr>)"

text \<open>
  The closure \<open>read\<close> of \<open>Read\<close>: \<open>out\<close> is \<open>p[:n]\<close>, \<open>m\<close> is \<open>len(p)\<close> and
  \<open>err\<close> the named result. It returns \<open>(exit, p[:n], err)\<close> and the reader it advanced.
\<close>

definition read_closure ::
  "bytes_Reader \<Rightarrow> nat \<Rightarrow> byte list \<Rightarrow> io_error option
     \<Rightarrow> (bool \<times> byte list \<times> io_error option) \<times> bytes_Reader" where
  "read_closure r m out err =
     (case bytes_Reader_Read r (m - length out) of
        ((bs, e), r') \<Rightarrow>
          if e \<noteq> Some EOF then ((True, out @ bs, e), r')
          else ((False, out @ bs, err), r'))"

text \<open>
  The loop \<open>for blobLeaf := range cbr.leaves\<close>. It returns whether the loop was left
  by \<open>return\<close>, with \<open>p[:n]\<close> and \<open>err\<close>, and the new \<open>curLeaf\<close> and channel.
\<close>

fun range_leaves ::
  "byte list list \<Rightarrow> nat \<Rightarrow> byte list \<Rightarrow> io_error option \<Rightarrow> bytes_Reader option
     \<Rightarrow> (bool \<times> byte list \<times> io_error option) \<times> bytes_Reader option \<times> byte list list" where
  "range_leaves [] m out err cur = ((False, out, err), cur, [])"
| "range_leaves (bl # ls) m out err cur =
     (case read_closure (blobLeaf_Reader bl) m out err of
        ((exit, out', err'), r') \<Rightarrow>
          if exit then ((True, out', err'), Some r', ls)
          else range_leaves ls m out' err' (Some r'))"

definition Read_loop ::
  "compoundBlobReader \<Rightarrow> nat \<Rightarrow> byte list \<Rightarrow> io_error option
     \<Rightarrow> (byte list \<times> io_error option) \<times> compoundBlobReader" where
  "Read_loop cbr m out err =
     (case range_leaves (the (leaves cbr)) m out err (curLeaf cbr) of
        ((exit, out', err'), cur', ls') \<Rightarrow>
          if exit then ((out', err'), cbr\<lparr>curLeaf := cur', leaves := Some ls'\<rparr>)
          else ((out', err'), cbr\<lparr>curLeaf := cur', leaves := Some ls', eof := True\<rparr>))"

text \<open>\<open>Read cbr m\<close> is \<open>cbr.Read(p)\<close> for a buffer with \<open>len(p) = m\<close>.\<close>

definition Read :: "compoundBlobReader \<Rightarrow> nat \<Rightarrow> (byte list \<times> io_error option) \<times> compoundBlobReader" where
  "Read cbr m =
     (if eof cbr then (([], Some EOF), cbr)
      else
        (let cbr1 = (if leaves cbr = None then snd (Seek cbr 0 0) else cbr)
         in case curLeaf cbr1 of
              None \<Rightarrow> Read_loop cbr1 m [] None
            | Some r \<Rightarrow>
                (case read_closure r m [] None of
                   ((exit, out, err), r') \<Rightarrow>
                     if exit then ((out, err), cbr1\<lparr>curLeaf := None\<rparr>)
                     else Read_loop (cbr1\<lparr>curLeaf := Some r'\<rparr>) m out err)))"

subsection \<open>findBlobOffset\<close>

text \<open>
  Modelled from the spec: \<open>sort.Search\<close> belongs to the Go library, not to the sources. It is
  the binary search of the spec (``binary-search \<open>O\<close> for the smallest \<open>i\<close> with
  \<open>O[i] > p\<close>''), written as the library's loop: \<open>i, j := 0, n\<close>; while \<open>i < j\<close>,
  \<open>h := int(uint(i+j) >> 1)\<close> and either \<open>i = h + 1\<close> or \<open>j = h\<close>. Both bounds are
  lengths of a slice, hence below \<open>2^63\<close>, and \<open>uint(i+j)\<close> is the exact sum.
\<close>

function Search_loop :: "(nat \<Rightarrow> bool) \<Rightarrow> nat \<Rightarrow> nat \<Rightarrow> nat" where
  "Search_loop f i j =
     (if i < j then
        (let h = (i + j) div 2
         in if \<not> f h then Search_loop f (h + 1) j else Search_loop f i h)
      else i)"
  by pat_completeness auto
termination
  by (relation "measure (\<lambda>(f, i, j). j - i)") auto

declare Search_loop.simps [simp del]

definition Search :: "nat \<Rightarrow> (nat \<Rightarrow> bool) \<Rightarrow> nat" where
  "Search n f = Search_loop f 0 n"

definition findBlobOffset :: "compoundBlobReader \<Rightarrow> uint64 \<Rightarrow> nat" where
  "findBlobOffset cbr p = Search (length (offsets (cb cbr))) (\<lambda>k. offsets (cb cbr) ! k > p)"

subsection \<open>Sequences of calls on a reader\<close>

text \<open>\<open>bytes str\<close> is \<open>[]byte(str)\<close> for an ASCII string.\<close>

definition bytes :: "string \<Rightarrow> byte list" where
  "bytes str = map (\<lambda>c. of_nat (of_char c)) str"

text \<open>
  A client calls \<open>Read\<close> (with a buffer of some length) and \<open>Seek\<close> in any order;
  \<open>run\<close> threads the reader through the calls and collects what each returned.
\<close>

datatype call = ReadCall nat | SeekCall int int

datatype outcome = ReadResult "byte list" "io_error option" | SeekResult int "io_error option"

fun run :: "compoundBlobReader \<Rightarrow> call list \<Rightarrow> outcome list \<times> compoundBlobReader" where
  "run cbr [] = ([], cbr)"
| "run cbr (ReadCall m # cs) =
     (case Read cbr m of ((bs, e), cbr') \<Rightarrow>
        (case run cbr' cs of (rs, cbr'') \<Rightarrow> (ReadResult bs e # rs, cbr'')))"
| "run cbr (SeekCall off wh # cs) =
     (case Seek cbr off wh of ((n, e), cbr') \<Rightarrow>
        (case run cbr' cs of (rs, cbr'') \<Rightarrow> (SeekResult n e # rs, cbr'')))"

text \<open>A \<open>Read\<close> that returned \<open>(0, EOF)\<close>; nothing is asked of a \<open>Seek\<close>.\<close>

fun eof_outcome :: "outcome \<Rightarrow> bool" where
  "eof_outcome (ReadResult bs e) = (bs = [] \<and> e = Some EOF)"
| "eof_outcome (SeekResult n e) = True"

section \<open>Refs\<close>

text \<open>
  Modelled from the spec: the package \<open>ref\<close> is not among the sources. A Ref is a fixed-size
  20-byte digest; its printable form is \<open>sha1-\<close> followed by 40 lowercase hex digits;
  \<open>parse\<close> accepts exactly that form; the zero Ref \<open>ref.Ref{}\<close> stands for ``no root
  yet''. The 20 bytes are kept as one 160-bit word, first byte most significant.
\<close>

type_synonym Sha1Digest = "160 word"

datatype Ref = Ref (Digest: Sha1Digest)

definition hexdigit :: "nat \<Rightarrow> char" where
  "hexdigit d = ''0123456789abcdef'' ! d"

definition hexval :: "char \<Rightarrow> nat option" where
  "hexval c =
     (let k = of_char c :: nat
      in if 48 \<le> k \<and> k \<le> 57 then Some (k - 48)
         else if 97 \<le> k \<and> k \<le> 102 then Some (k - 87)
         else None)"

fun hex_encode :: "nat \<Rightarrow> nat \<Rightarrow> string" where
  "hex_encode 0 n = []"
| "hex_encode (Suc k) n = hex_encode k (n div 16) @ [hexdigit (n mod 16)]"

fun hex_decode :: "nat \<Rightarrow> string \<Rightarrow> nat option" where
  "hex_decode acc [] = Some acc"
| "hex_decode acc (c # cs) =
     (case hexval c of None \<Rightarrow> None | Some d \<Rightarrow> hex_decode (16 * acc + d) cs)"

definition Ref_String :: "Ref \<Rightarrow> string" where
  "Ref_String r = ''sha1-'' @ hex_encode 40 (unat (Digest r))"

definition Parse :: "string \<Rightarrow> Ref option" where
  "Parse str =
     (if length str = 45 \<and> take 5 str = ''sha1-''
      then map_option (\<lambda>n. Ref (of_nat n)) (hex_decode 0 (drop 5 str))
      else None)"

text \<open>
  The failed checks of \<open>d.Chk\<close> and the panic of \<open>ref.MustParse\<close> end the call; they
  are the left summand of every result below.
\<close>

datatype panic = Chk_NoError | Chk_NotNil | Chk_True | MustParse_failed

definition MustParse :: "string \<Rightarrow> panic + Ref" where
  "MustParse str = (case Parse str of None \<Rightarrow> Inl MustParse_failed | Some r \<Rightarrow> Inr r)"

text \<open>
  The hash is a parameter \<open>H\<close> (SHA-1 in the source): \<open>ref.NewHash()\<close> starts with no
  bytes, the writer feeds it every byte written, and \<open>ref.FromHash\<close> is the Ref of the
  digest of the bytes fed so far.
\<close>

definition FromHash :: "(byte list \<Rightarrow> Sha1Digest) \<Rightarrow> byte list \<Rightarrow> Ref" where
  "FromHash H fed = Ref (H fed)"

section \<open>FileStore\<close>

text \<open>\<open>binary.Write\<close> and \<open>binary.Read\<close> of an \<open>int64\<close> and of a digest, little endian.\<close>

definition le64 :: "int64 \<Rightarrow> byte list" where
  "le64 w = map (\<lambda>k. ucast (drop_bit (8 * k) w)) [0..<8]"

definition le64_decode :: "byte list \<Rightarrow> int64" where
  "le64_decode bs = foldr (\<lambda>b acc. ucast b OR push_bit 8 acc) bs 0"

definition digest_bytes :: "Sha1Digest \<Rightarrow> byte list" where
  "digest_bytes w = map (\<lambda>k. ucast (drop_bit (8 * (19 - k)) w)) [0..<20]"

definition digest_of_bytes :: "byte list \<Rightarrow> Sha1Digest" where
  "digest_of_bytes bs = foldl (\<lambda>acc b. push_bit 8 acc OR ucast b) 0 bs"

text \<open>
  What the store does to the disk, in program order: the writes to the three files, the
  truncation and creation of the root file, and the calls of \<open>Sync\<close>; for the second
  source file, which keeps the index in an embedded key-value store, the calls that set a
  key and that close and reopen that store.
\<close>

datatype disk_effect =
    Create_root | Truncate_root | Write_root string
  | Write_chunks "byte list" | Write_refMap "byte list"
  | Sync_chunks | Sync_refMap
  | Db_Close | Db_Open | Db_Set "byte list" "byte list"

text \<open>
  The store of the first source file (index kept in the map \<open>rm\<close> and logged in the
  \<open>refMap\<close> file). The files are their contents; \<open>rootFile\<close> is \<open>None\<close> while the root
  file does not exist; \<open>chunkPos\<close> is the offset of the shared handle \<open>chunkFile\<close>,
  which is opened with \<open>O_APPEND\<close>. The file system does not fail of its own accord.
\<close>

record FileStore =
  rootFile :: "string option"
  chunkFile :: "byte list"
  chunkPos :: nat
  refMapFile :: "byte list"
  rm :: "Sha1Digest \<rightharpoonup> int64"
  effects :: "disk_effect list"

function readRefMap :: "byte list \<Rightarrow> (Sha1Digest \<rightharpoonup> int64) \<Rightarrow> (Sha1Digest \<rightharpoonup> int64)" where
  "readRefMap bs m =
     (if length bs < 20 then m
      else if length (drop 20 bs) < 8 then m
      else readRefMap (drop 28 bs)
             (m(digest_of_bytes (take 20 bs) \<mapsto> le64_decode (take 8 (drop 20 bs)))))"
  by pat_completeness auto
termination
  by (relation "measure (\<lambda>(bs, m). length bs)") auto

declare readRefMap.simps [simp del]

text \<open>
  \<open>NewFileStore\<close> in a directory that holds the given root, chunks and refMap files
  (the two \<open>OpenFile\<close> calls create the latter two when they are missing).
\<close>

definition NewFileStore :: "string option \<Rightarrow> byte list \<Rightarrow> byte list \<Rightarrow> FileStore" where
  "NewFileStore root_on_disk chunks_on_disk refMap_on_disk =
     \<lparr>rootFile = root_on_disk, chunkFile = chunks_on_disk, chunkPos = 0,
      refMapFile = refMap_on_disk, rm = readRefMap refMap_on_disk Map.empty, effects = []\<rparr>"

definition appendRefMap :: "FileStore \<Rightarrow> Ref \<Rightarrow> int64 \<Rightarrow> FileStore" where
  "appendRefMap f r i =
     f\<lparr>refMapFile := refMapFile f @ digest_bytes (Digest r) @ le64 i,
       rm := (rm f)(Digest r \<mapsto> i),
       effects := effects f @ [Write_refMap (digest_bytes (Digest r)), Write_refMap (le64 i)]\<rparr>"

definition readRef :: "string \<Rightarrow> panic + Ref" where
  "readRef content = (if length content = 0 then Inr (Ref 0) else MustParse content)"

definition Root :: "FileStore \<Rightarrow> panic + Ref" where
  "Root f = (case rootFile f of None \<Rightarrow> Inr (Ref 0) | Some content \<Rightarrow> readRef content)"

text \<open>
  \<open>UpdateRoot\<close>: open the root file (creating it when missing), read the Ref in it,
  return \<open>false\<close> when it differs from \<open>last\<close> (here \<open>last'\<close>); otherwise seek to the start, truncate,
  write \<open>current.String()\<close>, then sync the chunk file and the refMap file.
\<close>

definition UpdateRoot :: "FileStore \<Rightarrow> Ref \<Rightarrow> Ref \<Rightarrow> panic + (bool \<times> FileStore)" where
  "UpdateRoot f current last' =
     (let f1 = (case rootFile f of
                  None \<Rightarrow> f\<lparr>rootFile := Some [], effects := effects f @ [Create_root]\<rparr>
                | Some content \<Rightarrow> f)
      in case readRef (the (rootFile f1)) of
           Inl p \<Rightarrow> Inl p
         | Inr existing \<Rightarrow>
             if existing \<noteq> last' then Inr (False, f1)
             else
               (let f2 = f1\<lparr>rootFile := Some [], effects := effects f1 @ [Truncate_root]\<rparr>;
                    f3 = f2\<lparr>rootFile := Some (Ref_String current),
                            effects := effects f2 @ [Write_root (Ref_String current)]\<rparr>;
                    f4 = f3\<lparr>effects := effects f3 @ [Sync_chunks]\<rparr>;
                    f5 = f4\<lparr>effects := effects f4 @ [Sync_refMap]\<rparr>
                in Inr (True, f5)))"

text \<open>
  \<open>Get\<close>. The reader it returns is \<open>io.LimitReader(f.chunkFile, l)\<close>: it reads at most
  \<open>l\<close> bytes from wherever the shared handle then stands. A \<open>Seek\<close> to a negative
  offset is the one error the file system reports; \<open>binary.Read\<close> of the length leaves
  \<open>l = 0\<close> when fewer than eight bytes are left, and its error is dropped.
\<close>

datatype LimitedReader = LimitedReader (N: int64)

definition Get :: "FileStore \<Rightarrow> Ref \<Rightarrow> panic + ((LimitedReader option \<times> io_error option) \<times> FileStore)" where
  "Get f r =
     (case rm f (Digest r) of
        None \<Rightarrow> Inr ((None, None), f)
      | Some i \<Rightarrow>
          if sint i < 0 then Inl Chk_NoError
          else
            (let hdr = take 8 (drop (unat i) (chunkFile f));
                 l = (if length hdr = 8 then le64_decode hdr else 0)
             in Inr ((Some (LimitedReader l), None), f\<lparr>chunkPos := unat i + length hdr\<rparr>)))"

subsection \<open>fileChunkWriter\<close>

text \<open>
  \<open>buffer\<close> is \<open>None\<close> for the nil pointer; \<open>hash\<close> holds the bytes fed to the hash.
  The store \<open>fs\<close> is shared with the \<open>FileStore\<close> the writer came from (its files and
  its map are references), so the methods that use it take it and return it.
\<close>

record fileChunkWriter =
  buffer :: "byte list option"
  hash :: "byte list"

definition Put :: "FileStore \<Rightarrow> fileChunkWriter" where
  "Put f = \<lparr>buffer = Some [], hash = []\<rparr>"

definition Write :: "fileChunkWriter \<Rightarrow> byte list \<Rightarrow> panic + ((nat \<times> io_error option) \<times> fileChunkWriter)" where
  "Write w bs =
     (case buffer w of
        None \<Rightarrow> Inl Chk_NotNil
      | Some b \<Rightarrow> Inr ((length bs, None), w\<lparr>buffer := Some (b @ bs), hash := hash w @ bs\<rparr>))"

text \<open>
  \<open>Close\<close>. \<open>io.Copy\<close> drains the buffer into the chunk file (with no call of \<open>Write\<close>
  for an empty buffer) and reports the number of bytes copied.
\<close>

definition Close ::
  "(byte list \<Rightarrow> Sha1Digest) \<Rightarrow> FileStore \<Rightarrow> fileChunkWriter
     \<Rightarrow> panic + (io_error option \<times> FileStore \<times> fileChunkWriter)" where
  "Close H f w =
     (case buffer w of
        None \<Rightarrow> Inr (None, f, w)
      | Some b \<Rightarrow>
          (let r = FromHash H (hash w)
           in if Digest r \<in> dom (rm f) then Inr (None, f, w)
              else
                (let i = (of_nat (length (chunkFile f)) :: int64);
                     f1 = f\<lparr>chunkPos := length (chunkFile f)\<rparr>;
                     totalBytes = (of_nat (length b) :: int64);
                     f2 = f1\<lparr>chunkFile := chunkFile f1 @ le64 totalBytes,
                             chunkPos := length (chunkFile f1 @ le64 totalBytes),
                             effects := effects f1 @ [Write_chunks (le64 totalBytes)]\<rparr>;
                     f3 = f2\<lparr>chunkFile := chunkFile f2 @ b,
                             chunkPos := length (chunkFile f2 @ b),
                             effects := effects f2 @ (if b = [] then [] else [Write_chunks b])\<rparr>;
                     written = (of_nat (length b) :: int64)
                 in if totalBytes \<noteq> written then Inl Chk_True
                    else Inr (None, appendRefMap f3 r i, w\<lparr>buffer := None\<rparr>))))"

definition Ref_of_writer ::
  "(byte list \<Rightarrow> Sha1Digest) \<Rightarrow> FileStore \<Rightarrow> fileChunkWriter
     \<Rightarrow> panic + ((Ref \<times> io_error option) \<times> FileStore \<times> fileChunkWriter)" where
  "Ref_of_writer H f w =
     (case Close H f w of
        Inl p \<Rightarrow> Inl p
      | Inr (Some e, f', w') \<Rightarrow> Inl Chk_NoError
      | Inr (None, f', w') \<Rightarrow> Inr ((FromHash H (hash w'), None), f', w'))"

section \<open>FileStore over a key-value store\<close>

text \<open>
  The store of the second source file, \<open>chunks/file_store.go\<close>: the index is the
  key-value store behind \<open>dbPointer\<close>, from digests to the eight bytes of the offset.
  The library is taken to work: \<open>Get\<close> fails with ``not found'' exactly for a missing
  key, \<open>Set\<close> and \<open>Open\<close> succeed, closing and reopening keeps the contents. Root file,
  chunk file and writers are as before; the functions carry the suffix \<open>_db\<close>.
\<close>

record DBFileStore =
  db_rootFile :: "string option"
  db_chunkFile :: "byte list"
  db_chunkPos :: nat
  db :: "Sha1Digest \<rightharpoonup> byte list"
  db_effects :: "disk_effect list"

datatype db_error = ErrNotFound

definition getIndex :: "DBFileStore \<Rightarrow> Ref \<Rightarrow> db_error + int64" where
  "getIndex f r =
     (case db f (Digest r) of
        None \<Rightarrow> Inl ErrNotFound
      | Some v \<Rightarrow> Inr (if 8 \<le> length v then le64_decode (take 8 v) else 0))"

definition putIndex :: "DBFileStore \<Rightarrow> Ref \<Rightarrow> int64 \<Rightarrow> DBFileStore" where
  "putIndex f r i =
     f\<lparr>db := (db f)(Digest r \<mapsto> le64 i),
       db_effects := db_effects f @ [Db_Set (digest_bytes (Digest r)) (le64 i)]\<rparr>"

definition Root_db :: "DBFileStore \<Rightarrow> panic + Ref" where
  "Root_db f = (case db_rootFile f of None \<Rightarrow> Inr (Ref 0) | Some content \<Rightarrow> readRef content)"

text \<open>Here the key-value store is closed and reopened before the root file is read.\<close>

definition UpdateRoot_db :: "DBFileStore \<Rightarrow> Ref \<Rightarrow> Ref \<Rightarrow> panic + (bool \<times> DBFileStore)" where
  "UpdateRoot_db f current last' =
     (let f1 = (case db_rootFile f of
                  None \<Rightarrow> f\<lparr>db_rootFile := Some [], db_effects := db_effects f @ [Create_root]\<rparr>
                | Some content \<Rightarrow> f);
          f2 = f1\<lparr>db_effects := db_effects f1 @ [Db_Close, Db_Open]\<rparr>
      in case readRef (the (db_rootFile f2)) of
           Inl p \<Rightarrow> Inl p
         | Inr existing \<Rightarrow>
             if existing \<noteq> last' then Inr (False, f2)
             else
               (let f3 = f2\<lparr>db_rootFile := Some [], db_effects := db_effects f2 @ [Truncate_root]\<rparr>;
                    f4 = f3\<lparr>db_rootFile := Some (Ref_String current),
                            db_effects := db_effects f3 @ [Write_root (Ref_String current)]\<rparr>;
                    f5 = f4\<lparr>db_effects := db_effects f4 @ [Sync_chunks]\<rparr>
                in Inr (True, f5)))"

text \<open>Here a failed \<open>binary.Read\<close> of the length is checked and panics.\<close>

definition Get_db :: "DBFileStore \<Rightarrow> Ref \<Rightarrow> panic + ((LimitedReader option \<times> io_error option) \<times> DBFileStore)" where
  "Get_db f r =
     (case getIndex f r of
        Inl e \<Rightarrow> Inr ((None, None), f)
      | Inr i \<Rightarrow>
          if sint i < 0 then Inl Chk_NoError
          else
            (let hdr = take 8 (drop (unat i) (db_chunkFile f))
             in if length hdr \<noteq> 8 then Inl Chk_NoError
                else Inr ((Some (LimitedReader (le64_decode hdr)), None),
                          f\<lparr>db_chunkPos := unat i + 8\<rparr>)))"

definition Close_db ::
  "(byte list \<Rightarrow> Sha1Digest) \<Rightarrow> DBFileStore \<Rightarrow> fileChunkWriter
     \<Rightarrow> panic + (io_error option \<times> DBFileStore \<times> fileChunkWriter)" where
  "Close_db H f w =
     (case buffer w of
        None \<Rightarrow> Inr (None, f, w)
      | Some b \<Rightarrow>
          (let r = FromHash H (hash w)
           in case getIndex f r of
                Inr found \<Rightarrow> Inr (None, f, w)
              | Inl e \<Rightarrow>
                (let i = (of_nat (length (db_chunkFile f)) :: int64);
                     f1 = f\<lparr>db_chunkPos := length (db_chunkFile f)\<rparr>;
                     totalBytes = (of_nat (length b) :: int64);
                     f2 = f1\<lparr>db_chunkFile := db_chunkFile f1 @ le64 totalBytes,
                             db_chunkPos := length (db_chunkFile f1 @ le64 totalBytes),
                             db_effects := db_effects f1 @ [Write_chunks (le64 totalBytes)]\<rparr>;
                     f3 = f2\<lparr>db_chunkFile := db_chunkFile f2 @ b,
                             db_chunkPos := length (db_chunkFile f2 @ b),
                             db_effects := db_effects f2 @ (if b = [] then [] else [Write_chunks b])\<rparr>;
                     written = (of_nat (length b) :: int64)
                 in if totalBytes \<noteq> written then Inl Chk_True
                    else Inr (None, putIndex f3 r i, w\<lparr>buffer := None\<rparr>))))"

definition Ref_of_writer_db ::
  "(byte list \<Rightarrow> Sha1Digest) \<Rightarrow> DBFileStore \<Rightarrow> fileChunkWriter
     \<Rightarrow> panic + ((Ref \<times> io_error option) \<times> DBFileStore \<times> fileChunkWriter)" where
  "Ref_of_writer_db H f w =
     (case Close_db H f w of
        Inl p \<Rightarrow> Inl p
      | Inr (Some e, f', w') \<Rightarrow> Inl Chk_NoError
      | Inr (None, f', w') \<Rightarrow> Inr ((FromHash H (hash w'), None), f', w'))"

subsection \<open>Clients of the store\<close>

text \<open>A client that stores one chunk: \<open>w := fs.Put(); w.Write(b); w.Ref()\<close>.\<close>

definition put_bytes ::
  "(byte list \<Rightarrow> Sha1Digest) \<Rightarrow> FileStore \<Rightarrow> byte list
     \<Rightarrow> panic + ((Ref \<times> io_error option) \<times> FileStore \<times> fileChunkWriter)" where
  "put_bytes H f b =
     (case Write (Put f) b of Inl p \<Rightarrow> Inl p | Inr (n, w) \<Rightarrow> Ref_of_writer H f w)"

text \<open>A stand-in for the hash in concrete runs; the theorems hold for every \<open>H\<close>.\<close>

definition toy_hash :: "byte list \<Rightarrow> Sha1Digest" where
  "toy_hash bs = of_nat (length bs)"

text \<open>
  Durability, read off the effects: scanning them in order, \<open>dc\<close> and \<open>di\<close> say whether
  the chunk file and the index hold writes that no \<open>Sync\<close> has followed (closing and
  reopening the key-value store is not taken for one). The root file must only be
  rewritten while neither does.
\<close>

fun durable_at_root_write :: "bool \<Rightarrow> bool \<Rightarrow> disk_effect list \<Rightarrow> bool" where
  "durable_at_root_write dc di [] = True"
| "durable_at_root_write dc di (Write_chunks bs # es) = durable_at_root_write True di es"
| "durable_at_root_write dc di (Write_refMap bs # es) = durable_at_root_write dc True es"
| "durable_at_root_write dc di (Sync_chunks # es) = durable_at_root_write False di es"
| "durable_at_root_write dc di (Sync_refMap # es) = durable_at_root_write dc False es"
| "durable_at_root_write dc di (Db_Set k v # es) = durable_at_root_write dc True es"
| "durable_at_root_write dc di (Db_Close # es) = durable_at_root_write dc di es"
| "durable_at_root_write dc di (Db_Open # es) = durable_at_root_write dc di es"
| "durable_at_root_write dc di (Create_root # es) = durable_at_root_write dc di es"
| "durable_at_root_write dc di (Truncate_root # es) =
     (\<not> dc \<and> \<not> di \<and> durable_at_root_write dc di es)"
| "durable_at_root_write dc di (Write_root str # es) =
     (\<not> dc \<and> \<not> di \<and> durable_at_root_write dc di es)"

section \<open>Binary search over the offsets\<close>

text \<open>
  The midpoint as the library computes it, in 64-bit unsigned arithmetic, is the exact
  midpoint for all bounds a slice length can take.
\<close>

lemma uint_midpoint_exact:
  assumes "i \<le> j" and "j < 2 ^ 63"
  shows "unat (drop_bit 1 ((of_nat i + of_nat j) :: 64 word)) = (i + j) div 2"
proof -
  have "i + j < 2 ^ 64" using assms by simp
  moreover have "(of_nat i + of_nat j :: 64 word) = of_nat (i + j)" by simp
  ultimately have "unat (of_nat i + of_nat j :: 64 word) = i + j"
    by (simp only: unat_of_nat) simp
  then show ?thesis
    by (simp add: drop_bit_eq_div unat_div_distrib)
qed

lemma Search_loop_stop: "\<not> i < j \<Longrightarrow> Search_loop f i j = i"
  by (subst Search_loop.simps) simp

lemma Search_loop_right: "i < j \<Longrightarrow> \<not> f ((i + j) div 2) \<Longrightarrow> Search_loop f i j = Search_loop f ((i + j) div 2 + 1) j"
  by (subst Search_loop.simps) (simp add: Let_def)

lemma Search_loop_left: "i < j \<Longrightarrow> f ((i + j) div 2) \<Longrightarrow> Search_loop f i j = Search_loop f i ((i + j) div 2)"
  by (subst Search_loop.simps) (simp add: Let_def)

lemma Search_loop_bounds:
  "i \<le> j \<Longrightarrow> i \<le> Search_loop f i j \<and> Search_loop f i j \<le> j"
proof (induction f i j rule: Search_loop.induct)
  case (1 f i j)
  show ?case
  proof (cases "i < j")
    case False
    then show ?thesis using "1.prems" by (simp add: Search_loop_stop)
  next
    case True
    define h where "h = (i + j) div 2"
    have hb: "i \<le> h" "h < j" using True by (simp_all add: h_def)
    show ?thesis
    proof (cases "f h")
      case fh: True
      have "i \<le> Search_loop f i h \<and> Search_loop f i h \<le> h"
        by (rule "1.IH"(2) [OF True h_def]) (simp_all add: fh hb)
      moreover have "Search_loop f i j = Search_loop f i h"
        unfolding h_def by (rule Search_loop_left [OF True]) (use fh h_def in simp)
      ultimately show ?thesis using hb by linarith
    next
      case fh: False
      have "h + 1 \<le> Search_loop f (h + 1) j \<and> Search_loop f (h + 1) j \<le> j"
        by (rule "1.IH"(1) [OF True h_def]) (use fh hb in simp_all)
      moreover have "Search_loop f i j = Search_loop f (h + 1) j"
        unfolding h_def by (rule Search_loop_right [OF True]) (use fh h_def in simp)
      ultimately show ?thesis using hb by linarith
    qed
  qed
qed

lemma Search_loop_below:
  "i \<le> j \<Longrightarrow> j \<le> n \<Longrightarrow> (\<And>k. k < i \<Longrightarrow> \<not> f k)
     \<Longrightarrow> (\<And>a b. a \<le> b \<Longrightarrow> b < n \<Longrightarrow> f a \<Longrightarrow> f b)
     \<Longrightarrow> k < Search_loop f i j \<Longrightarrow> \<not> f k"
proof (induction f i j rule: Search_loop.induct)
  case (1 f i j)
  show ?case
  proof (cases "i < j")
    case False
    then have "Search_loop f i j = i" by (rule Search_loop_stop)
    then show ?thesis using "1.prems"(3,5) by simp
  next
    case True
    define h where "h = (i + j) div 2"
    have hb: "i \<le> h" "h < j" using True by (simp_all add: h_def)
    show ?thesis
    proof (cases "f h")
      case fh: True
      have eq: "Search_loop f i j = Search_loop f i h"
        unfolding h_def by (rule Search_loop_left [OF True]) (use fh h_def in simp)
      show ?thesis
      proof (rule "1.IH"(2) [OF True h_def])
        show "\<not> \<not> f h" using fh by simp
        show "i \<le> h" by (rule hb)
        show "h \<le> n" using hb "1.prems"(2) by simp
        show "\<And>k. k < i \<Longrightarrow> \<not> f k" by (rule "1.prems"(3))
        show "\<And>a b. a \<le> b \<Longrightarrow> b < n \<Longrightarrow> f a \<Longrightarrow> f b" by (rule "1.prems"(4))
        show "k < Search_loop f i h" using "1.prems"(5) eq by simp
      qed
    next
      case fh: False
      have eq: "Search_loop f i j = Search_loop f (h + 1) j"
        unfolding h_def by (rule Search_loop_right [OF True]) (use fh h_def in simp)
      have hn: "h < n" using hb "1.prems"(2) by simp
      show ?thesis
      proof (rule "1.IH"(1) [OF True h_def])
        show "\<not> f h" by (rule fh)
        show "h + 1 \<le> j" using hb by simp
        show "j \<le> n" by (rule "1.prems"(2))
        show "\<not> f k'" if "k' < h + 1" for k'
        proof
          assume "f k'"
          moreover have "k' \<le> h" using that by simp
          ultimately have "f h" using "1.prems"(4) hn by blast
          then show False using fh by simp
        qed
        show "\<And>a b. a \<le> b \<Longrightarrow> b < n \<Longrightarrow> f a \<Longrightarrow> f b" by (rule "1.prems"(4))
        show "k < Search_loop f (h + 1) j" using "1.prems"(5) eq by simp
      qed
    qed
  qed
qed

lemma Search_loop_at:
  "i \<le> j \<Longrightarrow> (j < n \<Longrightarrow> f j) \<Longrightarrow> Search_loop f i j < n \<Longrightarrow> f (Search_loop f i j)"
proof (induction f i j rule: Search_loop.induct)
  case (1 f i j)
  show ?case
  proof (cases "i < j")
    case False
    then have "Search_loop f i j = i" by (rule Search_loop_stop)
    moreover have "i = j" using False "1.prems"(1) by simp
    ultimately show ?thesis using "1.prems"(2,3) by simp
  next
    case True
    define h where "h = (i + j) div 2"
    have hb: "i \<le> h" "h < j" using True by (simp_all add: h_def)
    show ?thesis
    proof (cases "f h")
      case fh: True
      have eq: "Search_loop f i j = Search_loop f i h"
        unfolding h_def by (rule Search_loop_left [OF True]) (use fh h_def in simp)
      have "f (Search_loop f i h)"
        by (rule "1.IH"(2) [OF True h_def]) (use fh hb "1.prems"(3) eq in simp_all)
      then show ?thesis using eq by simp
    next
      case fh: False
      have eq: "Search_loop f i j = Search_loop f (h + 1) j"
        unfolding h_def by (rule Search_loop_right [OF True]) (use fh h_def in simp)
      have "f (Search_loop f (h + 1) j)"
        by (rule "1.IH"(1) [OF True h_def]) (use fh hb "1.prems" eq in simp_all)
      then show ?thesis using eq by simp
    qed
  qed
qed

lemma sorted_wrt_less_nth_mono:
  fixes xs :: "uint64 list"
  shows "sorted_wrt (<) xs \<Longrightarrow> a \<le> b \<Longrightarrow> b < length xs \<Longrightarrow> xs ! a \<le> xs ! b"
  by (cases "a = b") (auto simp: sorted_wrt_iff_nth_less less_imp_le)

text \<open>
  C9. When the offsets are strictly increasing and \<open>p\<close> lies below the last of them,
  \<open>findBlobOffset\<close> returns the index \<open>i\<close> of the child whose byte range contains
  \<open>p\<close>: \<open>i\<close> is a valid index, \<open>O[i] > p\<close>, no smaller index has an offset above
  \<open>p\<close> (so \<open>i\<close> is the least such index), and \<open>p\<close> lies in \<open>[O[i-1], O[i])\<close>,
  where \<open>O[-1]\<close> is read as \<open>0\<close>.
\<close>

theorem findBlobOffset_smallest:
  assumes "sorted_wrt (<) (offsets (cb cbr))"
    and "offsets (cb cbr) \<noteq> []"
    and "p < last (offsets (cb cbr))"
  shows "findBlobOffset cbr p < length (offsets (cb cbr))
       \<and> p < offsets (cb cbr) ! findBlobOffset cbr p
       \<and> (\<forall>k < findBlobOffset cbr p. offsets (cb cbr) ! k \<le> p)
       \<and> findBlobOffset cbr p = (LEAST k. k < length (offsets (cb cbr)) \<and> p < offsets (cb cbr) ! k)
       \<and> (if findBlobOffset cbr p = 0 then 0 else offsets (cb cbr) ! (findBlobOffset cbr p - 1)) \<le> p"
proof -
  define os where "os = offsets (cb cbr)"
  define n where "n = length os"
  define f where "f = (\<lambda>k. os ! k > p)"
  define r where "r = Search_loop f 0 n"
  have r_eq: "findBlobOffset cbr p = r"
    by (simp add: findBlobOffset_def Search_def r_def f_def n_def os_def)
  have n_pos: "0 < n" using assms(2) by (simp add: n_def os_def)
  have mono: "f b" if "a \<le> b" "b < n" "f a" for a b
  proof -
    have "os ! a \<le> os ! b"
      using sorted_wrt_less_nth_mono [of os a b] assms(1) that by (simp add: os_def n_def)
    then show ?thesis using that(3) by (simp add: f_def)
  qed
  have below: "\<not> f k" if "k < r" for k
    using Search_loop_below [of 0 n n f k] mono that by (auto simp: r_def)
  have f_last: "f (n - 1)"
    using assms(2,3) by (simp add: f_def n_def os_def last_conv_nth)
  have r_lt: "r < n"
  proof (rule ccontr)
    assume "\<not> r < n"
    then have "n - 1 < r" using n_pos by simp
    then show False using below f_last by blast
  qed
  have f_r: "f r"
    unfolding r_def by (rule Search_loop_at [of 0 n n f]) (use r_lt r_def in simp_all)
  have least: "r = (LEAST k. k < n \<and> p < os ! k)"
  proof (rule sym, rule Least_equality)
    show "r < n \<and> p < os ! r" using r_lt f_r by (simp add: f_def)
  next
    fix k assume "k < n \<and> p < os ! k"
    then have "f k" by (simp add: f_def)
    then show "r \<le> k" using below [of k] by (cases "k < r") simp_all
  qed
  have prev: "(if r = 0 then 0 else os ! (r - 1)) \<le> p"
  proof (cases "r = 0")
    case True
    then show ?thesis by simp
  next
    case False
    then have "\<not> f (r - 1)" using below [of "r - 1"] by simp
    then show ?thesis using False by (simp add: f_def not_less)
  qed
  have all_below: "\<forall>k < r. os ! k \<le> p"
    using below by (auto simp: f_def not_less)
  show ?thesis
    unfolding r_eq using r_lt f_r all_below least prev
    by (simp add: f_def os_def n_def)
qed

theorem findBlobOffset_smallest_witness:
  "sorted_wrt (<) [2, 5, 6 :: uint64] \<and> [2, 5, 6 :: uint64] \<noteq> [] \<and> (3 :: uint64) < last [2, 5, 6]
   \<and> findBlobOffset (Reader (compoundBlob [2, 5, 6]
          [blobLeaf (bytes ''ab''), blobLeaf (bytes ''cde''), blobLeaf (bytes ''f'')])) 3 < 3
   \<and> (3 :: uint64) < [2, 5, 6] ! findBlobOffset (Reader (compoundBlob [2, 5, 6]
          [blobLeaf (bytes ''ab''), blobLeaf (bytes ''cde''), blobLeaf (bytes ''f'')])) 3"
proof -
  define r where "r = Reader (compoundBlob [2, 5, 6]
          [blobLeaf (bytes ''ab''), blobLeaf (bytes ''cde''), blobLeaf (bytes ''f'')])"
  have c: "offsets (cb r) = [2, 5, 6]"
    by (simp add: r_def Reader_def)
  have h1: "sorted_wrt (<) (offsets (cb r))"
    by (simp add: c)
  have h2: "offsets (cb r) \<noteq> []"
    by (simp add: c)
  have h3: "3 < last (offsets (cb r))"
    by (simp add: c)
  note t = findBlobOffset_smallest [OF h1 h2 h3]
  have p1: "findBlobOffset r 3 < length (offsets (cb r))"
    using t by (rule conjunct1)
  have p2: "3 < offsets (cb r) ! findBlobOffset r 3"
    using t by (elim conjE)
  show ?thesis
    using p1 p2 unfolding r_def [symmetric] by (simp add: c)
qed

section \<open>End of stream\<close>

lemmas reader_defs =
  Let_def Reader_def Read_def Seek_def Read_loop_def read_closure_def bytes_Reader_Read_def
  blobLeaf_Reader_def bytes_def

lemma read_closure_err:
  "read_closure r m out err = ((exit, out', err'), r') \<Longrightarrow> err \<noteq> Some EOF \<Longrightarrow> err' \<noteq> Some EOF"
  by (auto simp: read_closure_def split: prod.splits if_splits)

lemma range_leaves_err:
  "range_leaves ls m out err cur = ((exit, out', err'), cur', ls') \<Longrightarrow> err \<noteq> Some EOF
     \<Longrightarrow> err' \<noteq> Some EOF"
proof (induction ls arbitrary: out err cur)
  case Nil
  then show ?case by simp
next
  case (Cons bl ls)
  obtain ex1 out1 err1 r1 where rc: "read_closure (blobLeaf_Reader bl) m out err = ((ex1, out1, err1), r1)"
    by (cases "read_closure (blobLeaf_Reader bl) m out err") auto
  have e1: "err1 \<noteq> Some EOF" using read_closure_err [OF rc] Cons.prems(2) by simp
  show ?case
  proof (cases ex1)
    case True
    then show ?thesis using Cons.prems(1) rc e1 by simp
  next
    case False
    then have "range_leaves ls m out1 err1 (Some r1) = ((exit, out', err'), cur', ls')"
      using Cons.prems(1) rc by simp
    then show ?thesis using Cons.IH e1 by blast
  qed
qed

lemma Read_loop_err:
  "Read_loop cbr m out err = ((bs, e), cbr') \<Longrightarrow> err \<noteq> Some EOF \<Longrightarrow> e \<noteq> Some EOF"
proof -
  assume a: "Read_loop cbr m out err = ((bs, e), cbr')" and b: "err \<noteq> Some EOF"
  obtain ex1 out1 err1 cur1 ls1 where
    rl: "range_leaves (the (leaves cbr)) m out err (curLeaf cbr) = ((ex1, out1, err1), cur1, ls1)"
    by (cases "range_leaves (the (leaves cbr)) m out err (curLeaf cbr)") auto
  have "err1 \<noteq> Some EOF" using range_leaves_err [OF rl b] .
  moreover have "e = err1" using a rl by (simp add: Read_loop_def split: if_splits)
  ultimately show ?thesis by simp
qed

lemma Read_EOF_only_if_eof:
  assumes "Read cbr m = ((bs, Some EOF), cbr')"
  shows "eof cbr"
proof (rule ccontr)
  assume ne: "\<not> eof cbr"
  define cbr1 where "cbr1 = (if leaves cbr = None then snd (Seek cbr 0 0) else cbr)"
  show False
  proof (cases "curLeaf cbr1")
    case None
    then have "Read cbr m = Read_loop cbr1 m [] None"
      using ne by (simp add: Read_def cbr1_def Let_def)
    then show False using assms Read_loop_err [of cbr1 m "[]" None bs "Some EOF" cbr'] by simp
  next
    case (Some r)
    obtain ex1 out1 err1 r1 where rc: "read_closure r m [] None = ((ex1, out1, err1), r1)"
      by (cases "read_closure r m [] None") auto
    have e1: "err1 \<noteq> Some EOF" using read_closure_err [OF rc] by simp
    show False
    proof (cases ex1)
      case True
      then have "Read cbr m = ((out1, err1), cbr1\<lparr>curLeaf := None\<rparr>)"
        using ne Some rc by (simp add: Read_def cbr1_def Let_def)
      then show False using assms e1 by simp
    next
      case False
      then have "Read cbr m = Read_loop (cbr1\<lparr>curLeaf := Some r1\<rparr>) m out1 err1"
        using ne Some rc by (simp add: Read_def cbr1_def Let_def)
      then show False
        using assms Read_loop_err [of "cbr1\<lparr>curLeaf := Some r1\<rparr>" m out1 err1 bs "Some EOF" cbr'] e1
        by simp
    qed
  qed
qed

lemma Read_at_eof: "eof cbr \<Longrightarrow> Read cbr m = (([], Some EOF), cbr)"
  by (simp add: Read_def)

lemma Seek_keeps_eof: "eof (snd (Seek cbr off wh)) = eof cbr"
  by (simp add: Seek_def)

lemma run_at_eof:
  "eof cbr \<Longrightarrow> list_all eof_outcome (fst (run cbr cs)) \<and> eof (snd (run cbr cs))"
proof (induction cs arbitrary: cbr)
  case Nil
  then show ?case by simp
next
  case (Cons c cs)
  show ?case
  proof (cases c)
    case (ReadCall m)
    have "Read cbr m = (([], Some EOF), cbr)" using Cons.prems by (rule Read_at_eof)
    then show ?thesis using Cons.IH [OF Cons.prems] ReadCall
      by (cases "run cbr cs") simp
  next
    case (SeekCall off wh)
    obtain n e cbr' where sk: "Seek cbr off wh = ((n, e), cbr')"
      by (cases "Seek cbr off wh") auto
    have "eof cbr'" using Seek_keeps_eof [of cbr off wh] sk Cons.prems by simp
    then show ?thesis using Cons.IH [of cbr'] SeekCall sk
      by (cases "run cbr' cs") simp
  qed
qed

text \<open>
  C10. If a \<open>Read\<close> returns \<open>EOF\<close>, it returned no bytes and the \<open>eof\<close> flag is set;
  from then on, whatever sequence of \<open>Read\<close> and \<open>Seek\<close> calls follows, every
  \<open>Read\<close> returns \<open>(0, EOF)\<close> and the flag stays set: \<open>Seek\<close> never clears it.
\<close>

theorem Read_EOF_sticky:
  assumes "Read cbr m = ((bs, Some EOF), cbr')"
  shows "bs = [] \<and> eof cbr' \<and> list_all eof_outcome (fst (run cbr' cs)) \<and> eof (snd (run cbr' cs))"
proof -
  have e: "eof cbr" using assms by (rule Read_EOF_only_if_eof)
  then have "Read cbr m = (([], Some EOF), cbr)" by (rule Read_at_eof)
  then have "bs = []" "cbr' = cbr" using assms by simp_all
  then show ?thesis using e run_at_eof [of cbr cs] by simp
qed

theorem Read_EOF_sticky_witness:
  "Read (snd (run (Reader (compoundBlob [1] [blobLeaf [7]])) [ReadCall 4, ReadCall 4])) 4
     = (([], Some EOF), snd (run (Reader (compoundBlob [1] [blobLeaf [7]])) [ReadCall 4, ReadCall 4]))
   \<and> fst (run (snd (run (Reader (compoundBlob [1] [blobLeaf [7]])) [ReadCall 4, ReadCall 4]))
        [SeekCall 0 0, ReadCall 4])
     = [SeekResult 0 None, ReadResult [] (Some EOF)]
   \<and> list_all eof_outcome (fst (run (snd (run (Reader (compoundBlob [1] [blobLeaf [7]])) [ReadCall 4, ReadCall 4]))
        [SeekCall 0 0, ReadCall 4]))"
proof -
  have h: "Read (snd (run (Reader (compoundBlob [1] [blobLeaf [7]])) [ReadCall 4, ReadCall 4])) 4
     = (([], Some EOF), snd (run (Reader (compoundBlob [1] [blobLeaf [7]])) [ReadCall 4, ReadCall 4]))"
    by (simp add: reader_defs)
  have r: "fst (run (snd (run (Reader (compoundBlob [1] [blobLeaf [7]])) [ReadCall 4, ReadCall 4]))
        [SeekCall 0 0, ReadCall 4])
     = [SeekResult 0 None, ReadResult [] (Some EOF)]"
    by (simp add: reader_defs)
  show ?thesis
    using Read_EOF_sticky [OF h, of "[SeekCall 0 0, ReadCall 4]"] h r by simp
qed

section \<open>Seeking\<close>







section \<open>Reading a whole blob\<close>

text \<open>
  What \<open>Read\<close> does when it continues in a leaf that still has bytes: it copies them
  and then forgets the leaf, so whatever the buffer could not take is never delivered.
\<close>

lemma Read_forgets_current_leaf:
  assumes "\<not> eof cbr" and "leaves cbr \<noteq> None" and "curLeaf cbr = Some r"
    and "r_i r < length (r_s r)"
  shows "Read cbr m = ((take m (drop (r_i r) (r_s r)), None), cbr\<lparr>curLeaf := None\<rparr>)"
  using assms by (auto simp: Read_def read_closure_def bytes_Reader_Read_def Let_def)

text \<open>Leaves that fit the buffer arrive whole and in order, one per \<open>Read\<close>.\<close>

lemma Read_whole_leaves_example:
  "fst (run (Reader (compoundBlob [2, 5, 6]
              [blobLeaf (bytes ''ab''), blobLeaf (bytes ''cde''), blobLeaf (bytes ''f'')]))
         [ReadCall 4, ReadCall 4, ReadCall 4, ReadCall 4, ReadCall 4])
     = [ReadResult (bytes ''ab'') None, ReadResult (bytes ''cde'') None,
        ReadResult (bytes ''f'') None, ReadResult [] None, ReadResult [] (Some EOF)]"
  by (simp add: reader_defs)

text \<open>
  C1, at a blob with the single leaf \<open>abcdef\<close> read through buffers of two bytes: the
  reader delivers \<open>ab\<close> and \<open>cd\<close>, then nothing, then \<open>EOF\<close>. The bytes \<open>ef\<close> are lost.
\<close>

theorem Read_loses_leaf_tail:
  "fst (run (Reader (compoundBlob [6] [blobLeaf (bytes ''abcdef'')]))
         [ReadCall 2, ReadCall 2, ReadCall 2, ReadCall 2])
     = [ReadResult (bytes ''ab'') None, ReadResult (bytes ''cd'') None,
        ReadResult [] None, ReadResult [] (Some EOF)]"
  by (simp add: reader_defs)

section \<open>The root reference\<close>

lemma hexval_hexdigit_upto: "list_all (\<lambda>d. hexval (hexdigit d) = Some d) [0..<16]"
  by code_simp

lemma hexval_hexdigit: "d < 16 \<Longrightarrow> hexval (hexdigit d) = Some d"
  using hexval_hexdigit_upto by (simp add: list_all_iff)

lemma length_hex_encode: "length (hex_encode k n) = k"
  by (induction k arbitrary: n) simp_all

lemma hex_decode_append:
  "hex_decode acc (xs @ ys) = (case hex_decode acc xs of None \<Rightarrow> None | Some a \<Rightarrow> hex_decode a ys)"
  by (induction xs arbitrary: acc) (simp_all split: option.splits)

lemma hex_decode_encode: "hex_decode acc (hex_encode k n) = Some (acc * 16 ^ k + n mod 16 ^ k)"
proof (induction k arbitrary: n)
  case 0
  then show ?case by simp
next
  case (Suc k)
  have "n mod (16 * 16 ^ k) = 16 * (n div 16 mod 16 ^ k) + n mod 16"
    by (rule mod_mult2_eq)
  then show ?case
    by (simp add: hex_decode_append Suc.IH hexval_hexdigit algebra_simps)
qed

lemma Parse_Ref_String: "Parse (Ref_String r) = Some r"
proof -
  have "unat (Digest r) < 2 ^ 160"
    using unsigned_less [of "Digest r"] by simp
  then have "unat (Digest r) mod 16 ^ 40 = unat (Digest r)" by simp
  then have "hex_decode 0 (hex_encode 40 (unat (Digest r))) = Some (unat (Digest r))"
    by (simp only: hex_decode_encode) simp
  then show ?thesis
    by (simp add: Parse_def Ref_String_def length_hex_encode)
qed

lemma Ref_String_nonempty: "length (Ref_String r) \<noteq> 0"
  by (simp add: Ref_String_def)

lemma readRef_Nil: "readRef [] = Inr (Ref 0)"
  by (simp add: readRef_def)

lemma readRef_Ref_String: "readRef (Ref_String r) = Inr r"
  using Ref_String_nonempty [of r] by (simp add: readRef_def MustParse_def Parse_Ref_String)

text \<open>
  C2. On a store whose root file can be read (\<open>Root\<close> returns \<open>cur\<close>, the zero Ref when
  the file is missing or empty), \<open>UpdateRoot new expected\<close> returns \<open>true\<close> exactly when
  \<open>cur = expected\<close>. After \<open>true\<close> the root file holds \<open>new\<close> and \<open>Root\<close> returns it;
  after \<open>false\<close> the contents of the root file are what they were (a missing file now
  exists, empty) and \<open>Root\<close> still returns \<open>cur\<close>. Chunks and index are untouched.
\<close>

theorem UpdateRoot_compare_and_swap:
  assumes "Root f = Inr cur"
  shows "case UpdateRoot f new expected of
           Inl p \<Rightarrow> False
         | Inr (ok, f') \<Rightarrow>
             ok = (cur = expected)
           \<and> Root f' = Inr (if ok then new else cur)
           \<and> (if ok then rootFile f' = Some (Ref_String new)
               else rootFile f' = Some (case rootFile f of None \<Rightarrow> [] | Some c \<Rightarrow> c))
           \<and> chunkFile f' = chunkFile f \<and> refMapFile f' = refMapFile f \<and> rm f' = rm f"
proof (cases "rootFile f")
  case None
  then have c: "cur = Ref 0" using assms by (simp add: Root_def)
  show ?thesis
    using None c by (simp add: UpdateRoot_def Root_def readRef_Ref_String readRef_Nil Let_def)
next
  case (Some content)
  then have r: "readRef content = Inr cur" using assms by (simp add: Root_def)
  show ?thesis
    using Some r by (simp add: UpdateRoot_def Root_def readRef_Ref_String Let_def)
qed


theorem UpdateRoot_compare_and_swap_witness:
  "Root (NewFileStore None [] []) = Inr (Ref 0)
   \<and> (case UpdateRoot (NewFileStore None [] []) (Ref 5) (Ref 0) of
         Inl p \<Rightarrow> False
       | Inr (ok, f') \<Rightarrow> ok \<and> Root f' = Inr (Ref 5))"
proof -
  have h: "Root (NewFileStore None [] []) = Inr (Ref 0)"
    by (simp add: Root_def NewFileStore_def)
  show ?thesis
    using UpdateRoot_compare_and_swap [OF h, where new = "Ref 5" and expected = "Ref 0"] h
    by (auto split: sum.splits)
qed

text \<open>When the root file does not hold a Ref, \<open>UpdateRoot\<close> panics as \<open>Root\<close> does.\<close>

lemma UpdateRoot_unreadable_root:
  "Root f = Inl p \<Longrightarrow> UpdateRoot f new expected = Inl p"
  by (cases "rootFile f") (simp_all add: Root_def UpdateRoot_def Let_def)

section \<open>Writing chunks\<close>

lemma Write_Put: "Write (Put f) b = Inr ((length b, None), \<lparr>buffer = Some b, hash = b\<rparr>)"
  by (simp add: Write_def Put_def)

lemma Close_indexed:
  "buffer w = Some b \<Longrightarrow> H (hash w) \<in> dom (rm f) \<Longrightarrow> Close H f w = Inr (None, f, w)"
  by (simp add: Close_def FromHash_def)

lemma Close_new:
  assumes "buffer w = Some b" and "H (hash w) \<notin> dom (rm f)"
  shows "Close H f w =
           Inr (None,
                f\<lparr>chunkFile := chunkFile f @ le64 (of_nat (length b)) @ b,
                  chunkPos := length (chunkFile f) + length (le64 (of_nat (length b)) :: byte list) + length b,
                  refMapFile := refMapFile f @ digest_bytes (H (hash w)) @ le64 (of_nat (length (chunkFile f))),
                  rm := (rm f)(H (hash w) \<mapsto> of_nat (length (chunkFile f))),
                  effects := effects f @ [Write_chunks (le64 (of_nat (length b)))]
                     @ (if b = [] then [] else [Write_chunks b])
                     @ [Write_refMap (digest_bytes (H (hash w))),
                        Write_refMap (le64 (of_nat (length (chunkFile f))))]\<rparr>,
                w\<lparr>buffer := None\<rparr>)"
  using assms by (simp add: Close_def FromHash_def appendRefMap_def Let_def)

lemma readRefMap_Nil: "readRefMap [] m = m"
  by (subst readRefMap.simps) simp

lemma put_bytes_fresh:
  "put_bytes toy_hash (NewFileStore None [] []) [120] =
     Inr ((Ref 1, None),
          \<lparr>rootFile = None, chunkFile = le64 1 @ [120], chunkPos = 9,
            refMapFile = digest_bytes 1 @ le64 0, rm = [1 \<mapsto> 0],
            effects = [Write_chunks (le64 1), Write_chunks [120],
                       Write_refMap (digest_bytes 1), Write_refMap (le64 0)]\<rparr>,
          \<lparr>buffer = None, hash = [120]\<rparr>)"
  by (simp add: put_bytes_def Write_Put Ref_of_writer_def Close_def FromHash_def toy_hash_def
      NewFileStore_def readRefMap_Nil appendRefMap_def Let_def le64_def)

text \<open>
  C3. Two writers obtained from the same store are each given the bytes \<open>b\<close> and
  finalized one after the other. Both return the Ref of \<open>H b\<close> and no error; the second
  finalization leaves the store as the first left it; the index gains no key but \<open>H b\<close>.
  When \<open>H b\<close> was not indexed before, the first finalization appended exactly the record
  \<open>length | b\<close> to the chunk file and one entry to the index and its log; when it was
  indexed already, the first finalization changed nothing either.
\<close>

theorem same_bytes_one_record:
  "case Write (Put f) b of Inl p \<Rightarrow> False | Inr (n1, w1) \<Rightarrow>
   (case Write (Put f) b of Inl p \<Rightarrow> False | Inr (n2, w2) \<Rightarrow>
   (case Ref_of_writer H f w1 of Inl p \<Rightarrow> False | Inr ((r1, e1), f1, w1') \<Rightarrow>
   (case Ref_of_writer H f1 w2 of Inl p \<Rightarrow> False | Inr ((r2, e2), f2, w2') \<Rightarrow>
      r1 = Ref (H b) \<and> r2 = Ref (H b) \<and> e1 = None \<and> e2 = None
    \<and> f2 = f1
    \<and> dom (rm f2) - dom (rm f) \<subseteq> {H b}
    \<and> (if H b \<in> dom (rm f) then f1 = f
       else chunkFile f1 = chunkFile f @ le64 (of_nat (length b)) @ b
          \<and> rm f1 = (rm f)(H b \<mapsto> of_nat (length (chunkFile f)))
          \<and> refMapFile f1
              = refMapFile f @ digest_bytes (H b) @ le64 (of_nat (length (chunkFile f)))))))"
proof (cases "H b \<in> dom (rm f)")
  case True
  have c: "Close H f \<lparr>buffer = Some b, hash = b\<rparr> = Inr (None, f, \<lparr>buffer = Some b, hash = b\<rparr>)"
    using True by (simp add: Close_indexed)
  show ?thesis
    using True by (simp add: Write_Put Ref_of_writer_def c FromHash_def)
next
  case False
  define f1 where "f1 = f\<lparr>chunkFile := chunkFile f @ le64 (of_nat (length b)) @ b,
                  chunkPos := length (chunkFile f) + length (le64 (of_nat (length b)) :: byte list) + length b,
                  refMapFile := refMapFile f @ digest_bytes (H b) @ le64 (of_nat (length (chunkFile f))),
                  rm := (rm f)(H b \<mapsto> of_nat (length (chunkFile f))),
                  effects := effects f @ [Write_chunks (le64 (of_nat (length b)))]
                     @ (if b = [] then [] else [Write_chunks b])
                     @ [Write_refMap (digest_bytes (H b)),
                        Write_refMap (le64 (of_nat (length (chunkFile f))))]\<rparr>"
  have c1: "Close H f \<lparr>buffer = Some b, hash = b\<rparr> = Inr (None, f1, \<lparr>buffer = None, hash = b\<rparr>)"
    using False Close_new [of "\<lparr>buffer = Some b, hash = b\<rparr>" b H f] by (simp add: f1_def)
  have in1: "H b \<in> dom (rm f1)" by (simp add: f1_def)
  have c2: "Close H f1 \<lparr>buffer = Some b, hash = b\<rparr> = Inr (None, f1, \<lparr>buffer = Some b, hash = b\<rparr>)"
    using in1 by (simp add: Close_indexed)
  have "dom (rm f1) - dom (rm f) \<subseteq> {H b}" by (auto simp: f1_def)
  moreover have "chunkFile f1 = chunkFile f @ le64 (of_nat (length b)) @ b"
    "rm f1 = (rm f)(H b \<mapsto> of_nat (length (chunkFile f)))"
    "refMapFile f1 = refMapFile f @ digest_bytes (H b) @ le64 (of_nat (length (chunkFile f)))"
    by (simp_all add: f1_def)
  ultimately show ?thesis
    using False by (simp add: Write_Put Ref_of_writer_def c1 c2 FromHash_def)
qed


theorem same_bytes_one_record_witness:
  "case Write (Put (NewFileStore None [] [])) [120] of Inl p \<Rightarrow> False | Inr (n1, w1) \<Rightarrow>
   (case Ref_of_writer toy_hash (NewFileStore None [] []) w1 of Inl p \<Rightarrow> False
    | Inr ((r1, e1), f1, w1') \<Rightarrow>
   (case Ref_of_writer toy_hash f1 w1 of Inl p \<Rightarrow> False | Inr ((r2, e2), f2, w2') \<Rightarrow>
      toy_hash [120] \<notin> dom (rm (NewFileStore None [] []))
    \<and> r1 = Ref 1 \<and> r2 = Ref 1 \<and> f2 = f1
    \<and> chunkFile f2 = [1, 0, 0, 0, 0, 0, 0, 0, 120]
    \<and> dom (rm f2) = {1}))"
proof -
  have fresh: "toy_hash [120] \<notin> dom (rm (NewFileStore None [] []))"
    by (simp add: NewFileStore_def readRefMap_Nil)
  have len: "length (chunkFile (NewFileStore None [] [])) = 0"
    by (simp add: NewFileStore_def)
  have le: "le64 1 = [1, 0, 0, 0, 0, 0, 0, 0]"
    by code_simp
  show ?thesis
    using same_bytes_one_record
        [where f = "NewFileStore None [] []" and b = "[120]" and H = toy_hash] fresh
    by (auto simp: Write_Put le toy_hash_def NewFileStore_def readRefMap_Nil
        split: sum.splits prod.splits)
qed

section \<open>Fetching chunks\<close>

text \<open>
  C7. For a Ref whose digest is not in the index, \<open>Get\<close> returns the nil reader and the
  nil error and leaves the store as it was. For a Ref that is in the index, \<open>Get\<close>
  either returns a reader (and the nil error) or panics: absence is never the answer.
\<close>

theorem Get_absent:
  "(rm f (Digest r) = None \<longrightarrow> Get f r = Inr ((None, None), f))
   \<and> (rm f (Digest r) \<noteq> None \<longrightarrow>
        (case Get f r of Inl p \<Rightarrow> True | Inr ((rd, e), f') \<Rightarrow> rd \<noteq> None \<and> e = None))"
  by (auto simp: Get_def Let_def)


theorem Get_absent_witness:
  "rm (NewFileStore None [] []) (Digest (Ref 5)) = None
   \<and> Get (NewFileStore None [] []) (Ref 5) = Inr ((None, None), NewFileStore None [] [])
   \<and> (case put_bytes toy_hash (NewFileStore None [] []) [120] of
         Inl p \<Rightarrow> False
       | Inr (r, f1, w) \<Rightarrow>
           rm f1 (Digest (Ref 1)) \<noteq> None
         \<and> (case Get f1 (Ref 1) of Inl p \<Rightarrow> True | Inr ((rd, e), f') \<Rightarrow> rd \<noteq> None \<and> e = None))"
proof -
  have a: "rm (NewFileStore None [] []) (Digest (Ref 5)) = None"
    by (simp add: NewFileStore_def readRefMap_Nil)
  have "Get (NewFileStore None [] []) (Ref 5) = Inr ((None, None), NewFileStore None [] [])"
    using Get_absent [of "NewFileStore None [] []" "Ref 5"] a by simp
  moreover have "rm f1 (Digest (Ref 1)) \<noteq> None
      \<and> (case Get f1 (Ref 1) of Inl p \<Rightarrow> True | Inr ((rd, e), f') \<Rightarrow> rd \<noteq> None \<and> e = None)"
    if "f1 = \<lparr>rootFile = None, chunkFile = le64 1 @ [120], chunkPos = 9,
            refMapFile = digest_bytes 1 @ le64 0, rm = [1 \<mapsto> 0],
            effects = [Write_chunks (le64 1), Write_chunks [120],
                       Write_refMap (digest_bytes 1), Write_refMap (le64 0)]\<rparr>" for f1
  proof -
    have b: "rm f1 (Digest (Ref 1)) \<noteq> None" using that by simp
    then show ?thesis using Get_absent [of f1 "Ref 1"] by blast
  qed
  ultimately show ?thesis
    using a by (simp add: put_bytes_fresh)
qed

section \<open>The life of a writer\<close>

lemma Write_after_Close_of_new:
  assumes "buffer w = Some b" and "H (hash w) \<notin> dom (rm f)" and "Close H f w = Inr (e, f', w')"
  shows "Write w' x = Inl Chk_NotNil \<and> Close H f' w' = Inr (None, f', w')"
  using assms Close_new [of w b H f] by (simp add: Write_def Close_def)


text \<open>
  C8, where the chunk is already stored. \<open>Close\<close> on a writer whose hash is in the index
  returns without clearing \<open>buffer\<close>: store and writer are as before, and the \<open>Write\<close>
  that follows is accepted and extends buffer and hash. (On the other path, see
  \<open>Write_after_Close_of_new\<close>, the \<open>Write\<close> panics.)
\<close>

theorem Write_after_Close_of_duplicate:
  assumes "buffer w = Some b" and "H (hash w) \<in> dom (rm f)"
  shows "Close H f w = Inr (None, f, w)
       \<and> Write w x = Inr ((length x, None), w\<lparr>buffer := Some (b @ x), hash := hash w @ x\<rparr>)"
  using assms by (simp add: Close_indexed Write_def)


theorem Write_after_Close_of_duplicate_witness:
  "case put_bytes toy_hash (NewFileStore None [] []) [120] of
     Inl p \<Rightarrow> False
   | Inr (r, f1, w1) \<Rightarrow>
       (case Write (Put f1) [120] of
          Inl p \<Rightarrow> False
        | Inr (n, w) \<Rightarrow>
            buffer w = Some [120] \<and> toy_hash (hash w) \<in> dom (rm f1)
          \<and> Close toy_hash f1 w = Inr (None, f1, w)
          \<and> Write w [121] = Inr ((1, None), \<lparr>buffer = Some [120, 121], hash = [120, 121]\<rparr>)
          \<and> Write w1 [121] = Inl Chk_NotNil)"
proof -
  define f1 where "f1 = \<lparr>rootFile = None, chunkFile = le64 1 @ [120], chunkPos = 9,
            refMapFile = digest_bytes 1 @ le64 0, rm = [1 \<mapsto> 0],
            effects = [Write_chunks (le64 1), Write_chunks [120],
                       Write_refMap (digest_bytes 1), Write_refMap (le64 0)]\<rparr>"
  define w where "w = \<lparr>buffer = Some [120], hash = [120 :: byte]\<rparr>"
  have h1: "buffer w = Some [120]" by (simp add: w_def)
  have h2: "toy_hash (hash w) \<in> dom (rm f1)" by (simp add: w_def f1_def toy_hash_def)
  have "Close toy_hash f1 w = Inr (None, f1, w)
      \<and> Write w [121] = Inr ((1, None), \<lparr>buffer = Some [120, 121], hash = [120, 121]\<rparr>)"
    using Write_after_Close_of_duplicate [of w "[120]" toy_hash f1 "[121]"] h1 h2
    by (simp add: w_def)
  moreover have "Write (Put f1) [120] = Inr ((1, None), w)"
    by (simp add: Write_Put w_def)
  moreover have "Write \<lparr>buffer = None, hash = [120]\<rparr> [121] = Inl Chk_NotNil"
    by (simp add: Write_def)
  ultimately show ?thesis
    using h1 h2 unfolding put_bytes_fresh f1_def [symmetric] by simp
qed

section \<open>Durability and the root\<close>

text \<open>
  C5, as the code orders it. Every successful \<open>UpdateRoot\<close> truncates and rewrites the
  root file first and calls \<open>Sync\<close> on the chunk file and on the refMap file afterwards:
  these are, in this order, the effects it adds.
\<close>

theorem UpdateRoot_writes_root_before_sync:
  assumes "Root f = Inr expected"
  shows "case UpdateRoot f new expected of
           Inl p \<Rightarrow> False
         | Inr (ok, f') \<Rightarrow>
             ok
           \<and> effects f' = effects f @ (if rootFile f = None then [Create_root] else [])
                 @ [Truncate_root, Write_root (Ref_String new), Sync_chunks, Sync_refMap]"
proof (cases "rootFile f")
  case None
  then have "expected = Ref 0" using assms by (simp add: Root_def)
  then show ?thesis
    using None by (simp add: UpdateRoot_def readRef_Nil Let_def)
next
  case (Some content)
  then have "readRef content = Inr expected" using assms by (simp add: Root_def)
  then show ?thesis
    using Some by (simp add: UpdateRoot_def Let_def)
qed

text \<open>
  A chunk is stored in a fresh store and the root is then set to its Ref: when the root
  file is rewritten, the writes to the chunk file and to the refMap file have not been
  synced.
\<close>

theorem UpdateRoot_writes_root_before_sync_witness:
  "case put_bytes toy_hash (NewFileStore None [] []) [120] of
     Inl p \<Rightarrow> False
   | Inr (r, f1, w1) \<Rightarrow>
       Root f1 = Inr (Ref 0)
     \<and> (case UpdateRoot f1 (Ref 1) (Ref 0) of
           Inl p \<Rightarrow> False
         | Inr (ok, f2) \<Rightarrow>
             ok
           \<and> effects f2 =
               [Write_chunks (le64 1), Write_chunks [120],
                Write_refMap (digest_bytes 1), Write_refMap (le64 0),
                Create_root, Truncate_root, Write_root (Ref_String (Ref 1)),
                Sync_chunks, Sync_refMap]
           \<and> \<not> durable_at_root_write False False (effects f2))"
proof -
  define f1 where "f1 = \<lparr>rootFile = None, chunkFile = le64 1 @ [120], chunkPos = 9,
            refMapFile = digest_bytes 1 @ le64 0, rm = [1 \<mapsto> 0],
            effects = [Write_chunks (le64 1), Write_chunks [120],
                       Write_refMap (digest_bytes 1), Write_refMap (le64 0)]\<rparr>"
  have h: "Root f1 = Inr (Ref 0)" by (simp add: Root_def f1_def)
  have n: "rootFile f1 = None" by (simp add: f1_def)
  have e: "effects f1 = [Write_chunks (le64 1), Write_chunks [120],
                       Write_refMap (digest_bytes 1), Write_refMap (le64 0)]"
    by (simp add: f1_def)
  have "case UpdateRoot f1 (Ref 1) (Ref 0) of
           Inl p \<Rightarrow> False
         | Inr (ok, f2) \<Rightarrow>
             ok
           \<and> effects f2 =
               [Write_chunks (le64 1), Write_chunks [120],
                Write_refMap (digest_bytes 1), Write_refMap (le64 0),
                Create_root, Truncate_root, Write_root (Ref_String (Ref 1)),
                Sync_chunks, Sync_refMap]
           \<and> \<not> durable_at_root_write False False (effects f2)"
    using UpdateRoot_writes_root_before_sync [OF h, where new = "Ref 1"] n e
    by (auto split: sum.splits)
  then show ?thesis
    using h unfolding put_bytes_fresh f1_def [symmetric] by simp
qed

section \<open>The same store over a key-value index\<close>

text \<open>
  The second source file behaves as the first on every point above: the compare-and-swap
  of the root, the root written before the one \<open>Sync\<close>, the absent answer of \<open>Get\<close>,
  the deduplication in \<open>Close\<close>, and the writer left open by it.
\<close>

lemma UpdateRoot_db_compare_and_swap:
  assumes "Root_db f = Inr cur"
  shows "case UpdateRoot_db f new expected of
           Inl p \<Rightarrow> False
         | Inr (ok, f') \<Rightarrow>
             ok = (cur = expected)
           \<and> Root_db f' = Inr (if ok then new else cur)
           \<and> db_chunkFile f' = db_chunkFile f \<and> db f' = db f
           \<and> db_effects f' = db_effects f @ (if db_rootFile f = None then [Create_root] else [])
                 @ [Db_Close, Db_Open]
                 @ (if ok then [Truncate_root, Write_root (Ref_String new), Sync_chunks] else [])"
proof (cases "db_rootFile f")
  case None
  then have c: "cur = Ref 0" using assms by (simp add: Root_db_def)
  show ?thesis
    using None c by (simp add: UpdateRoot_db_def Root_db_def readRef_Ref_String readRef_Nil Let_def)
next
  case (Some content)
  then have r: "readRef content = Inr cur" using assms by (simp add: Root_db_def)
  show ?thesis
    using Some r by (simp add: UpdateRoot_db_def Root_db_def readRef_Ref_String Let_def)
qed

lemma Get_db_absent:
  "(db f (Digest r) = None \<longrightarrow> Get_db f r = Inr ((None, None), f))
   \<and> (db f (Digest r) \<noteq> None \<longrightarrow>
        (case Get_db f r of Inl p \<Rightarrow> True | Inr ((rd, e), f') \<Rightarrow> rd \<noteq> None \<and> e = None))"
  by (auto simp: Get_db_def getIndex_def Let_def)

lemma Close_db_indexed:
  "buffer w = Some b \<Longrightarrow> H (hash w) \<in> dom (db f) \<Longrightarrow> Close_db H f w = Inr (None, f, w)"
  by (auto simp: Close_db_def FromHash_def getIndex_def)

lemma Close_db_new:
  assumes "buffer w = Some b" and "H (hash w) \<notin> dom (db f)"
  shows "Close_db H f w =
           Inr (None,
                f\<lparr>db_chunkFile := db_chunkFile f @ le64 (of_nat (length b)) @ b,
                  db_chunkPos := length (db_chunkFile f) + length (le64 (of_nat (length b)) :: byte list) + length b,
                  db := (db f)(H (hash w) \<mapsto> le64 (of_nat (length (db_chunkFile f)))),
                  db_effects := db_effects f @ [Write_chunks (le64 (of_nat (length b)))]
                     @ (if b = [] then [] else [Write_chunks b])
                     @ [Db_Set (digest_bytes (H (hash w))) (le64 (of_nat (length (db_chunkFile f))))]\<rparr>,
                w\<lparr>buffer := None\<rparr>)"
proof -
  have "db f (H (hash w)) = None" using assms(2) by (simp add: domIff)
  then show ?thesis
    using assms(1) by (simp add: Close_db_def FromHash_def getIndex_def putIndex_def Let_def)
qed

lemma same_bytes_one_record_db:
  assumes "buffer w1 = Some b" "hash w1 = b" "buffer w2 = Some b" "hash w2 = b"
    and "Ref_of_writer_db H f w1 = Inr ((r1, e1), f1, w1')"
    and "Ref_of_writer_db H f1 w2 = Inr ((r2, e2), f2, w2')"
  shows "r1 = Ref (H b) \<and> r2 = Ref (H b) \<and> f2 = f1
       \<and> (if H b \<in> dom (db f) then f1 = f
          else db_chunkFile f1 = db_chunkFile f @ le64 (of_nat (length b)) @ b
             \<and> db f1 = (db f)(H b \<mapsto> le64 (of_nat (length (db_chunkFile f)))))"
proof (cases "H b \<in> dom (db f)")
  case True
  have c1: "Close_db H f w1 = Inr (None, f, w1)"
    using True assms(1,2) Close_db_indexed [of w1 b H f] by simp
  then have f1: "f1 = f" "r1 = Ref (H b)"
    using assms(2,5) by (simp_all add: Ref_of_writer_db_def FromHash_def)
  have "Close_db H f1 w2 = Inr (None, f1, w2)"
    using True f1 assms(3,4) Close_db_indexed [of w2 b H f1] by simp
  then show ?thesis
    using True f1 assms(4,6) by (simp add: Ref_of_writer_db_def FromHash_def)
next
  case False
  note c1 = Close_db_new [of w1 b H f]
  have f1: "f1 = f\<lparr>db_chunkFile := db_chunkFile f @ le64 (of_nat (length b)) @ b,
                  db_chunkPos := length (db_chunkFile f) + length (le64 (of_nat (length b)) :: byte list) + length b,
                  db := (db f)(H b \<mapsto> le64 (of_nat (length (db_chunkFile f)))),
                  db_effects := db_effects f @ [Write_chunks (le64 (of_nat (length b)))]
                     @ (if b = [] then [] else [Write_chunks b])
                     @ [Db_Set (digest_bytes (H b)) (le64 (of_nat (length (db_chunkFile f))))]\<rparr>"
    and r1: "r1 = Ref (H b)"
    using False assms(1,2,5) c1 by (simp_all add: Ref_of_writer_db_def FromHash_def)
  have in1: "H b \<in> dom (db f1)" by (simp add: f1)
  have "Close_db H f1 w2 = Inr (None, f1, w2)"
    using in1 assms(3,4) Close_db_indexed [of w2 b H f1] by simp
  then have "f2 = f1" "r2 = Ref (H b)"
    using assms(4,6) by (simp_all add: Ref_of_writer_db_def FromHash_def)
  moreover have "db_chunkFile f1 = db_chunkFile f @ le64 (of_nat (length b)) @ b"
    "db f1 = (db f)(H b \<mapsto> le64 (of_nat (length (db_chunkFile f))))"
    by (simp_all add: f1)
  ultimately show ?thesis using False r1 by simp
qed

lemma Write_after_Close_db_of_duplicate:
  assumes "buffer w = Some b" and "H (hash w) \<in> dom (db f)"
  shows "Close_db H f w = Inr (None, f, w)
       \<and> Write w x = Inr ((length x, None), w\<lparr>buffer := Some (b @ x), hash := hash w @ x\<rparr>)"
  using assms by (simp add: Close_db_indexed Write_def)

end
